theory Spec2Isabelle
  imports Main "HOL-Library.Word"
begin

section \<open>The line reverser of reverse.c\<close>

text \<open>
  The program reads a file line by line with the C library's \<^verbatim>\<open>getline\<close>, reverses each
  line in the line buffer and prints the buffer with \<^verbatim>\<open>fprintf(output_file, "%s", ...)\<close>.
  Its state is four globals and the world outside: the files, the error stream and the
  resources held. A C \<^verbatim>\<open>char\<close> is a byte, as a HOL \<^typ>\<open>char\<close> is.
\<close>

subsection \<open>Memory: the line buffer\<close>

text \<open>
  The buffer is a heap block: a list of cells whose length is the allocated size
  (\<^verbatim>\<open>input_line_size\<close>). A cell that was never written holds no definite value: it is
  \<open>None\<close>. Reading such a cell, or a cell past the end of the block, is a fault: what the
  program does from there on is not determined by its input.
\<close>

type_synonym path = string
type_synonym cell = "char option"

definition newline :: char where
  "newline = CHR 0x0A"

definition NUL :: char where
  "NUL = CHR 0x00"

datatype fault = Null_dereference | Uninitialised_read nat | Out_of_bounds_read nat

subsection \<open>Streams and the world\<close>

text \<open>
  A \<^verbatim>\<open>FILE\<close> is a path, the number of bytes already read through it, and the bytes printed
  to it that the library still holds; they reach the file when the stream is closed.
  The world records which paths \<^verbatim>\<open>fopen\<close> refuses, after how many bytes the input device
  fails (\<open>rd_limit\<close>) and how many bytes the output device accepts (\<open>wr_limit\<close>), what was
  printed to the error stream, and how many streams and heap blocks are live.
\<close>

datatype mode = Read_mode | Write_mode

record stream =
  s_path :: path
  s_pos :: nat
  s_pending :: "char list"

record world =
  files :: "path \<rightharpoonup> char list"
  no_read :: "path set"
  no_write :: "path set"
  rd_limit :: "nat option"
  wr_limit :: "nat option"
  err_stream :: "char list"
  live_streams :: nat
  live_blocks :: nat

text \<open>The globals of reverse.c (\<open>None\<close> is \<^verbatim>\<open>NULL\<close>) and the world.\<close>

record state =
  input_file :: "stream option"
  output_file :: "stream option"
  input_line_buffer :: "cell list option"
  env :: world

datatype outcome = Exit int world | Undefined fault

subsection \<open>The C library\<close>

text \<open>
  \<^verbatim>\<open>fopen(p, "r")\<close> needs an existing, readable file; \<^verbatim>\<open>fopen(p, "w")\<close> creates or truncates
  the file at once.
\<close>

definition fopen :: "path \<Rightarrow> mode \<Rightarrow> world \<Rightarrow> stream option \<times> world" where
  "fopen p m w =
     (case m of
        Read_mode \<Rightarrow>
          (if files w p \<noteq> None \<and> p \<notin> no_read w
           then (Some \<lparr>s_path = p, s_pos = 0, s_pending = []\<rparr>,
                 w\<lparr>live_streams := Suc (live_streams w)\<rparr>)
           else (None, w))
      | Write_mode \<Rightarrow>
          (if p \<notin> no_write w
           then (Some \<lparr>s_path = p, s_pos = 0, s_pending = []\<rparr>,
                 w\<lparr>files := (files w)(p \<mapsto> []), live_streams := Suc (live_streams w)\<rparr>)
           else (None, w)))"

text \<open>
  \<^verbatim>\<open>fclose\<close> flushes what the stream holds, as far as the device accepts it, and releases
  the stream. Its result is ignored by the program.
\<close>

definition fclose :: "stream \<Rightarrow> world \<Rightarrow> world" where
  "fclose f w =
     (let w' = w\<lparr>live_streams := live_streams w - 1\<rparr>;
          accepted = (case wr_limit w of None \<Rightarrow> s_pending f | Some k \<Rightarrow> take k (s_pending f))
      in if s_pending f = [] then w'
         else w'\<lparr>files := (files w)(s_path f \<mapsto>
                  (case files w (s_path f) of None \<Rightarrow> [] | Some old \<Rightarrow> old) @ accepted)\<rparr>)"

text \<open>The bytes a stream can still deliver: the rest of its file, up to the device's fault.\<close>

definition unread :: "world \<Rightarrow> stream \<Rightarrow> char list" where
  "unread w f =
     (case files w (s_path f) of
        None \<Rightarrow> []
      | Some bytes \<Rightarrow>
          drop (s_pos f) (case rd_limit w of None \<Rightarrow> bytes | Some k \<Rightarrow> take k bytes))"

text \<open>The next line: the bytes up to and including the first newline, or all that is left.\<close>

fun next_line :: "char list \<Rightarrow> char list" where
  "next_line [] = []"
| "next_line (c # cs) = (if c = newline then [c] else c # next_line cs)"

text \<open>
  \<^verbatim>\<open>getline(&buffer, &size, file)\<close>: allocates the buffer when there is none (120 bytes in
  glibc), returns -1 when no byte can be read (at end of file and on a read error alike),
  and otherwise grows the block if the line and its terminator do not fit (glibc doubles
  it, or takes the needed size if that is more), stores the line and a NUL after it, and
  returns the line's length. The cells after the NUL keep what they held.
\<close>

definition getline ::
  "cell list option \<Rightarrow> stream \<Rightarrow> world \<Rightarrow> int \<times> cell list option \<times> stream \<times> world" where
  "getline lineptr f w =
     (let buf = (case lineptr of None \<Rightarrow> replicate 120 None
                 | Some b \<Rightarrow> if b = [] then replicate 120 None else b);
          w1 = (case lineptr of None \<Rightarrow> w\<lparr>live_blocks := Suc (live_blocks w)\<rparr> | Some b \<Rightarrow> w);
          line = next_line (unread w f);
          needed = length line + 1;
          grown = (if needed \<le> length buf then buf
                   else buf @ replicate (max (2 * length buf) needed - length buf) None)
      in if line = [] then (- 1, Some buf, f, w1)
         else (int (length line),
               Some (map Some line @ Some NUL # drop needed grown),
               f\<lparr>s_pos := s_pos f + length line\<rparr>, w1))"

text \<open>\<^verbatim>\<open>fprintf(f, "%s", p)\<close> prints the bytes at \<open>p\<close> up to the first NUL.\<close>

fun c_string :: "cell list \<Rightarrow> nat \<Rightarrow> fault + char list" where
  "c_string [] i = Inl (Out_of_bounds_read i)"
| "c_string (None # cs) i = Inl (Uninitialised_read i)"
| "c_string (Some c # cs) i =
     (if c = NUL then Inr []
      else (case c_string cs (Suc i) of Inl e \<Rightarrow> Inl e | Inr str \<Rightarrow> Inr (c # str)))"

definition fprintf_s :: "stream \<Rightarrow> char list \<Rightarrow> stream" where
  "fprintf_s f str = f\<lparr>s_pending := s_pending f @ str\<rparr>"

subsection \<open>The functions of reverse.c\<close>

definition output_line :: "state \<Rightarrow> fault + state" where
  "output_line s =
     (case (input_line_buffer s, output_file s) of
        (Some buf, Some f) \<Rightarrow>
          (case c_string buf 0 of
             Inl e \<Rightarrow> Inl e
           | Inr str \<Rightarrow> Inr (s\<lparr>output_file := Some (fprintf_s f str)\<rparr>))
      | _ \<Rightarrow> Inr s)"

text \<open>
  The scan \<^verbatim>\<open>while (*right != '\n') right++;\<close> walks the cells from \<open>right\<close> on; the
  second argument is the index of the first of them.
\<close>

fun find_newline :: "cell list \<Rightarrow> nat \<Rightarrow> fault + nat" where
  "find_newline [] i = Inl (Out_of_bounds_read i)"
| "find_newline (None # cs) i = Inl (Uninitialised_read i)"
| "find_newline (Some c # cs) i = (if c \<noteq> newline then find_newline cs (Suc i) else Inr i)"

text \<open>
  The swap loop. The pointers are offsets into the buffer; \<open>right\<close> is -1 when the
  newline is the first byte, so the offsets are integers.
\<close>

function swap_loop :: "cell list \<Rightarrow> int \<Rightarrow> int \<Rightarrow> cell list" where
  "swap_loop buf left right =
     (if left < right
      then swap_loop (buf[nat left := buf ! nat right, nat right := buf ! nat left])
             (left + 1) (right - 1)
      else buf)"
  by pat_completeness auto
termination
  by (relation "measure (\<lambda>(buf, left, right). nat (right - left))") auto

declare swap_loop.simps [simp del]

definition reverse_line :: "state \<Rightarrow> fault + state" where
  "reverse_line s =
     (case input_line_buffer s of
        None \<Rightarrow> Inl Null_dereference
      | Some buf \<Rightarrow>
          (case find_newline buf 0 of
             Inl e \<Rightarrow> Inl e
           | Inr k \<Rightarrow> Inr (s\<lparr>input_line_buffer := Some (swap_loop buf 0 (int k - 1))\<rparr>)))"

definition END_OF_INPUT :: int where
  "END_OF_INPUT = - 1"

text \<open>
  \<^verbatim>\<open>get_next_line\<close> returns \<^verbatim>\<open>int\<close>: the length that \<^verbatim>\<open>getline\<close> returns is cut to 32 bits.
\<close>

definition get_next_line :: "state \<Rightarrow> int \<times> state" where
  "get_next_line s =
     (case input_file s of
        Some f \<Rightarrow>
          (case getline (input_line_buffer s) f (env s) of
             (r, b, f', w') \<Rightarrow>
               (sint (word_of_int r :: 32 word),
                s\<lparr>input_file := Some f', input_line_buffer := b, env := w'\<rparr>))
      | None \<Rightarrow> (END_OF_INPUT, s))"

definition cleanup :: "state \<Rightarrow> state" where
  "cleanup s =
     (let w1 = (case input_file s of Some f \<Rightarrow> fclose f (env s) | None \<Rightarrow> env s);
          w2 = (case output_file s of Some f \<Rightarrow> fclose f w1 | None \<Rightarrow> w1);
          w3 = (case input_line_buffer s of
                  Some b \<Rightarrow> w2\<lparr>live_blocks := live_blocks w2 - 1\<rparr>
                | None \<Rightarrow> w2)
      in s\<lparr>env := w3\<rparr>)"

definition EXIT_ERR :: "state \<Rightarrow> outcome" where
  "EXIT_ERR s = Exit 1 (env (cleanup s))"

definition EXIT_SUCC :: "state \<Rightarrow> outcome" where
  "EXIT_SUCC s = Exit 0 (env (cleanup s))"

definition print_err :: "char list \<Rightarrow> state \<Rightarrow> state" where
  "print_err msg s = s\<lparr>env := (env s)\<lparr>err_stream := err_stream (env s) @ msg\<rparr>\<rparr>"

text \<open>
  \<^verbatim>\<open>open(FILE **ptr, ...)\<close> is called with the address of one of the two file globals.
\<close>

datatype file_var = Input_file | Output_file

definition store :: "file_var \<Rightarrow> stream option \<Rightarrow> state \<Rightarrow> state" where
  "store ptr v s =
     (case ptr of Input_file \<Rightarrow> s\<lparr>input_file := v\<rparr> | Output_file \<Rightarrow> s\<lparr>output_file := v\<rparr>)"

definition open_file :: "file_var \<Rightarrow> path \<Rightarrow> mode \<Rightarrow> state \<Rightarrow> outcome + state" where
  "open_file ptr filename m s =
     (case fopen filename m (env s) of
        (v, w') \<Rightarrow>
          (let s' = store ptr v (s\<lparr>env := w'\<rparr>)
           in if v = None
              then Inl (EXIT_ERR (print_err (''Error opening file: '' @ filename @ [newline]) s'))
              else Inr s'))"

definition print_usage :: "string \<Rightarrow> state \<Rightarrow> state" where
  "print_usage program s =
     print_err (''Usage: '' @ program @ '' [in-file] [out-file]'' @ [newline]) s"

text \<open>The body of the loop of \<^verbatim>\<open>main\<close>: \<^verbatim>\<open>reverse_line(); output_line();\<close>\<close>

definition loop_body :: "state \<Rightarrow> fault + state" where
  "loop_body s =
     (case reverse_line s of
        Inl e \<Rightarrow> Inl e
      | Inr s' \<Rightarrow> output_line s')"

text \<open>
  \<^verbatim>\<open>while (get_next_line() != END_OF_INPUT) { ... }\<close>: every round that enters the body
  has read at least one byte, which is why the loop ends (shown below).
\<close>

function process_lines :: "state \<Rightarrow> fault + state" where
  "process_lines s =
     (case get_next_line s of
        (r, s1) \<Rightarrow>
          if r \<noteq> END_OF_INPUT
          then (case loop_body s1 of
                  Inl e \<Rightarrow> Inl e
                | Inr s2 \<Rightarrow> process_lines s2)
          else Inr s1)"
  by pat_completeness auto

text \<open>
  \<^verbatim>\<open>main\<close>: \<open>program\<close> is \<^verbatim>\<open>argv[0]\<close> and \<open>args\<close> are the arguments after it, so
  \<^verbatim>\<open>argc\<close> is one more than their number. The globals start as \<^verbatim>\<open>NULL\<close>. A fault in
  the loop leaves the run undefined.
\<close>

definition main :: "string \<Rightarrow> string list \<Rightarrow> world \<Rightarrow> outcome" where
  "main program args w =
     (let s0 = \<lparr>input_file = None, output_file = None, input_line_buffer = None, env = w\<rparr>;
          argc = 1 + int (length args);
          args_correct = (argc = 3)
      in if \<not> args_correct then EXIT_ERR (print_usage program s0)
         else (case open_file Input_file (args ! 0) Read_mode s0 of
                 Inl out \<Rightarrow> out
               | Inr s1 \<Rightarrow>
                   (case open_file Output_file (args ! 1) Write_mode s1 of
                      Inl out \<Rightarrow> out
                    | Inr s2 \<Rightarrow>
                        (case process_lines s2 of
                           Inl e \<Rightarrow> Undefined e
                         | Inr s3 \<Rightarrow> EXIT_SUCC s3))))"

subsection \<open>What a run shows\<close>

definition exit_status :: "outcome \<Rightarrow> int option" where
  "exit_status out = (case out of Exit n w \<Rightarrow> Some n | Undefined e \<Rightarrow> None)"

definition file_after :: "outcome \<Rightarrow> path \<Rightarrow> char list option" where
  "file_after out p = (case out of Exit n w \<Rightarrow> files w p | Undefined e \<Rightarrow> None)"

definition fault_of :: "outcome \<Rightarrow> fault option" where
  "fault_of out = (case out of Exit n w \<Rightarrow> None | Undefined e \<Rightarrow> Some e)"

definition fault_in :: "fault + 'a \<Rightarrow> fault option" where
  "fault_in r = (case r of Inl e \<Rightarrow> Some e | Inr x \<Rightarrow> None)"

text \<open>What the scan of \<^verbatim>\<open>reverse_line\<close> finds in the buffer of a state.\<close>

definition scanned :: "state \<Rightarrow> (fault + nat) option" where
  "scanned s = map_option (\<lambda>buf. find_newline buf 0) (input_line_buffer s)"

text \<open>Reversing the line in the buffer twice.\<close>

definition reverse_twice :: "state \<Rightarrow> fault + state" where
  "reverse_twice s = (case reverse_line s of Inl e \<Rightarrow> Inl e | Inr s' \<Rightarrow> reverse_line s')"

text \<open>The input bytes a state of the loop can still read, and the bytes printed so far.\<close>

definition remaining :: "state \<Rightarrow> char list" where
  "remaining s = (case input_file s of None \<Rightarrow> [] | Some f \<Rightarrow> unread (env s) f)"

definition printed :: "state \<Rightarrow> char list" where
  "printed s = (case output_file s of None \<Rightarrow> [] | Some f \<Rightarrow> s_pending f)"

subsection \<open>A world and a state to run the program in\<close>

text \<open>
  A world whose only file, \<open>''in''\<close>, holds the given bytes, where nothing is refused and
  no device fails; and the state in which \<^verbatim>\<open>main\<close> enters its loop there, with a given
  line buffer.
\<close>

definition example_world :: "char list \<Rightarrow> world" where
  "example_world bytes =
     \<lparr>files = [''in'' \<mapsto> bytes], no_read = {}, no_write = {}, rd_limit = None,
      wr_limit = None, err_stream = [], live_streams = 0, live_blocks = 0\<rparr>"

definition example_state :: "char list \<Rightarrow> cell list option \<Rightarrow> state" where
  "example_state bytes buf =
     \<lparr>input_file = Some \<lparr>s_path = ''in'', s_pos = 0, s_pending = []\<rparr>,
      output_file = Some \<lparr>s_path = ''out'', s_pos = 0, s_pending = []\<rparr>,
      input_line_buffer = buf,
      env = (example_world bytes)
              \<lparr>files := [''in'' \<mapsto> bytes, ''out'' \<mapsto> []], live_streams := 2\<rparr>\<rparr>"

subsection \<open>Lines and their reversal, as the specification words them\<close>

text \<open>
  A line is a maximal run of bytes up to and including a newline, or up to the end of the
  input if no newline remains. The input splits into its lines, in order.
\<close>

function input_lines :: "char list \<Rightarrow> char list list" where
  "input_lines cs =
     (if cs = [] then [] else next_line cs # input_lines (drop (length (next_line cs)) cs))"
  by pat_completeness auto
termination
  by (relation "measure length") (auto simp: neq_Nil_conv)

declare input_lines.simps [simp del]

text \<open>
  The reversal of a line leaves the trailing newline, if there is one, as the last byte
  and reverses the bytes before it.
\<close>

definition spec_reverse :: "char list \<Rightarrow> char list" where
  "spec_reverse l =
     (if l \<noteq> [] \<and> last l = newline then rev (butlast l) @ [newline] else rev l)"

section \<open>The loop ends\<close>

lemma getline_cases:
  "getline b f w = (r, b', f', w') \<Longrightarrow>
     (r = - 1 \<and> f' = f) \<or>
     (next_line (unread w f) \<noteq> [] \<and> r = int (length (next_line (unread w f))) \<and>
      f' = f\<lparr>s_pos := s_pos f + length (next_line (unread w f))\<rparr>)"
  by (auto simp: getline_def Let_def split: if_splits)

lemma getline_files:
  "getline b f w = (r, b', f', w') \<Longrightarrow> files w' = files w \<and> rd_limit w' = rd_limit w"
  by (auto simp: getline_def Let_def split: if_splits option.splits)

lemma next_line_le: "length (next_line cs) \<le> length cs"
  by (induction cs) auto

lemma next_line_Nil [simp]: "next_line cs = [] \<longleftrightarrow> cs = []"
  by (cases cs) auto

lemma unread_advance: "unread w (f\<lparr>s_pos := s_pos f + n\<rparr>) = drop n (unread w f)"
  by (simp add: unread_def add.commute split: option.splits)

lemma reverse_line_frame:
  "reverse_line s = Inr s' \<Longrightarrow>
     input_file s' = input_file s \<and> env s' = env s \<and> output_file s' = output_file s"
  by (auto simp: reverse_line_def split: option.splits sum.splits)

lemma output_line_frame:
  "output_line s = Inr s' \<Longrightarrow>
     input_file s' = input_file s \<and> env s' = env s \<and>
     input_line_buffer s' = input_line_buffer s"
  by (auto simp: output_line_def split: option.splits sum.splits)

lemma loop_body_frame:
  "loop_body s = Inr s' \<Longrightarrow> input_file s' = input_file s \<and> env s' = env s"
  using reverse_line_frame output_line_frame
  by (fastforce simp: loop_body_def split: sum.splits)

lemma get_next_line_decreases:
  assumes "get_next_line s = (r, s1)" "r \<noteq> END_OF_INPUT"
  shows "length (remaining s1) < length (remaining s)"
proof (cases "input_file s")
  case None
  with assms show ?thesis by (simp add: get_next_line_def)
next
  case (Some f)
  obtain r0 b f' w' where g: "getline (input_line_buffer s) f (env s) = (r0, b, f', w')"
    by (cases "getline (input_line_buffer s) f (env s)") auto
  from assms Some g have r: "r = sint (word_of_int r0 :: 32 word)"
    and s1: "s1 = s\<lparr>input_file := Some f', input_line_buffer := b, env := w'\<rparr>"
    by (auto simp: get_next_line_def)
  from r assms(2) have "r0 \<noteq> - 1" by (auto simp: END_OF_INPUT_def)
  with getline_cases[OF g] have ne: "next_line (unread (env s) f) \<noteq> []"
    and f': "f' = f\<lparr>s_pos := s_pos f + length (next_line (unread (env s) f))\<rparr>" by auto
  let ?u = "unread (env s) f"
  have "unread w' f' = unread (env s) f'"
    using getline_files[OF g] by (auto simp: unread_def split: option.splits)
  then have u': "unread w' f' = drop (length (next_line ?u)) ?u"
    by (simp add: f' unread_advance)
  have pos: "0 < length (next_line ?u)" using ne by simp
  have le: "length (next_line ?u) \<le> length ?u" by (rule next_line_le)
  have "length (remaining s1) = length ?u - length (next_line ?u)"
    by (simp add: remaining_def s1 u')
  moreover have "length (remaining s) = length ?u"
    by (simp add: remaining_def Some)
  ultimately show ?thesis using pos le by arith
qed

termination process_lines
proof (relation "measure (\<lambda>s. length (remaining s))")
  show "wf (measure (\<lambda>s. length (remaining s)))" by simp
next
  fix s r s1 s2
  assume g: "(r, s1) = get_next_line s" and r: "r \<noteq> END_OF_INPUT"
    and body: "loop_body s1 = Inr s2"
  from g r have "length (remaining s1) < length (remaining s)"
    using get_next_line_decreases[of s r s1] by simp
  moreover have "remaining s2 = remaining s1"
    using loop_body_frame[OF body] by (auto simp: remaining_def split: option.splits)
  ultimately show "(s2, s) \<in> measure (\<lambda>s. length (remaining s))" by simp
qed

declare process_lines.simps [simp del]

section \<open>The scan, the swap loop and the print\<close>

lemma find_newline_append:
  "newline \<notin> set pre \<Longrightarrow> find_newline (map Some pre @ Some newline # rest) i = Inr (i + length pre)"
  by (induction pre arbitrary: i) auto

lemma c_string_append:
  "NUL \<notin> set str \<Longrightarrow> c_string (map Some str @ Some NUL # rest) i = Inr str"
  by (induction str arbitrary: i) auto

lemma c_string_takeWhile:
  "c_string (map Some str @ Some NUL # rest) i = Inr (takeWhile (\<lambda>c. c \<noteq> NUL) str)"
  by (induction str arbitrary: i) auto

lemma swap_loop_length [simp]: "length (swap_loop buf l r) = length buf"
proof (induction buf l r rule: swap_loop.induct)
  case (1 buf left right)
  then show ?case by (subst swap_loop.simps) simp
qed

lemma swap_loop_nth:
  "0 \<le> l \<Longrightarrow> r < int (length buf) \<Longrightarrow> i < length buf \<Longrightarrow>
   swap_loop buf l r ! i = (if l \<le> int i \<and> int i \<le> r then buf ! nat (l + r - int i) else buf ! i)"
proof (induction buf l r arbitrary: i rule: swap_loop.induct)
  case (1 buf left right)
  show ?case
  proof (cases "left < right")
    case False
    then have "swap_loop buf left right = buf" by (subst swap_loop.simps) simp
    moreover from False have "left \<le> int i \<and> int i \<le> right \<Longrightarrow> nat (left + right - int i) = i" by auto
    ultimately show ?thesis by auto
  next
    case True
    let ?b = "buf[nat left := buf ! nat right, nat right := buf ! nat left]"
    have step: "swap_loop buf left right = swap_loop ?b (left + 1) (right - 1)"
      using True by (subst swap_loop.simps) simp
    have ih: "swap_loop ?b (left + 1) (right - 1) ! i =
        (if left + 1 \<le> int i \<and> int i \<le> right - 1 then ?b ! nat (left + 1 + (right - 1) - int i) else ?b ! i)"
      using "1.IH"[OF True, of i] "1.prems" by simp
    show ?thesis
      unfolding step ih using True "1.prems"
      by (auto simp: nth_list_update nat_eq_iff)
  qed
qed

lemma swap_loop_rev:
  assumes "k \<le> length buf"
  shows "swap_loop buf 0 (int k - 1) = rev (take k buf) @ drop k buf"
proof (rule nth_equalityI)
  show "length (swap_loop buf 0 (int k - 1)) = length (rev (take k buf) @ drop k buf)"
    using assms by simp
next
  fix i assume "i < length (swap_loop buf 0 (int k - 1))"
  then have i: "i < length buf" by simp
  have "swap_loop buf 0 (int k - 1) ! i = (if int i \<le> int k - 1 then buf ! nat (int k - 1 - int i) else buf ! i)"
    using swap_loop_nth[of 0 "int k - 1" buf i] assms i by simp
  also have "\<dots> = (rev (take k buf) @ drop k buf) ! i"
  proof (cases "i < k")
    case True
    then have "nat (int k - 1 - int i) = k - Suc i" by auto
    with True assms show ?thesis by (simp add: nth_append rev_nth)
  next
    case False
    with assms i show ?thesis by (simp add: nth_append)
  qed
  finally show "swap_loop buf 0 (int k - 1) ! i = (rev (take k buf) @ drop k buf) ! i" .
qed

lemma reverse_line_newline:
  assumes "input_line_buffer s = Some (map Some pre @ Some newline # rest)" "newline \<notin> set pre"
  shows "reverse_line s = Inr (s\<lparr>input_line_buffer := Some (map Some (rev pre) @ Some newline # rest)\<rparr>)"
proof -
  let ?buf = "map Some pre @ Some newline # rest"
  have "find_newline ?buf 0 = Inr (length pre)"
    using find_newline_append[OF assms(2), of rest 0] by simp
  moreover have "swap_loop ?buf 0 (int (length pre) - 1) = rev (take (length pre) ?buf) @ drop (length pre) ?buf"
    by (rule swap_loop_rev) simp
  ultimately show ?thesis using assms(1) by (simp add: reverse_line_def rev_map)
qed

section \<open>Lines\<close>

lemma sint32_not_minus1:
  assumes "n < 4294967295"
  shows "sint (word_of_int (int n) :: 32 word) \<noteq> - 1"
proof
  assume a: "sint (word_of_int (int n) :: 32 word) = - 1"
  have "sint (word_of_nat n :: 32 word) = sint (- 1 :: 32 word)"
    using a by simp
  then have "(word_of_nat n :: 32 word) = - 1"
    by (rule signed_word_eqI)
  then have "unat (word_of_nat n :: 32 word) = unat (- 1 :: 32 word)"
    by (rule arg_cong)
  moreover have "unat (- 1 :: 32 word) = 4294967295"
    by (simp add: unsigned_minus_1_eq_mask mask_eq_exp_minus_1)
  ultimately have "n mod 4294967296 = 4294967295"
    by (simp add: unat_of_nat)
  with assms show False by simp
qed

lemma next_line_butlast: "newline \<notin> set (butlast (next_line cs))"
  by (induction cs) auto

lemma next_line_prefix: "next_line cs @ drop (length (next_line cs)) cs = cs"
  by (induction cs) auto

lemma next_line_append:
  "newline \<notin> set pre \<Longrightarrow> next_line (pre @ newline # rest) = pre @ [newline]"
  by (induction pre) auto

lemma input_lines_Nil [simp]: "input_lines [] = []"
  by (subst input_lines.simps) simp

lemma input_lines_Cons:
  "cs \<noteq> [] \<Longrightarrow> input_lines cs = next_line cs # input_lines (drop (length (next_line cs)) cs)"
  by (subst input_lines.simps) simp

lemma concat_input_lines: "concat (input_lines cs) = cs"
proof (induction cs rule: input_lines.induct)
  case (1 cs)
  show ?case
  proof (cases "cs = []")
    case True then show ?thesis by simp
  next
    case False
    with 1 show ?thesis by (simp add: input_lines_Cons next_line_prefix)
  qed
qed

section \<open>One round of the loop, and all of them\<close>

lemma get_next_line_end:
  assumes "remaining s = []"
  shows "\<exists>s1. get_next_line s = (END_OF_INPUT, s1) \<and> output_file s1 = output_file s \<and>
           remaining s1 = []"
proof (cases "input_file s")
  case None
  with assms show ?thesis by (simp add: get_next_line_def)
next
  case (Some f)
  with assms have u: "unread (env s) f = []" by (simp add: remaining_def)
  obtain r b f' w' where g: "getline (input_line_buffer s) f (env s) = (r, b, f', w')"
    by (cases "getline (input_line_buffer s) f (env s)") auto
  from g u have r: "r = - 1" and f': "f' = f"
    by (auto simp: getline_def Let_def)
  have "unread w' f = unread (env s) f"
    using getline_files[OF g] by (auto simp: unread_def split: option.splits)
  with u Some g r f' show ?thesis
    by (simp add: get_next_line_def END_OF_INPUT_def remaining_def)
qed

lemma get_next_line_reads:
  assumes "input_file s = Some f" "remaining s \<noteq> []"
    and "length (next_line (remaining s)) < 4294967295"
  shows "\<exists>r s1 rest f'. get_next_line s = (r, s1) \<and> r \<noteq> END_OF_INPUT \<and>
      input_line_buffer s1 = Some (map Some (next_line (remaining s)) @ Some NUL # rest) \<and>
      remaining s1 = drop (length (next_line (remaining s))) (remaining s) \<and>
      output_file s1 = output_file s \<and> input_file s1 = Some f'"
proof -
  let ?u = "unread (env s) f"
  from assms have u: "remaining s = ?u" and ne: "next_line ?u \<noteq> []"
    by (simp_all add: remaining_def)
  obtain r b f' w' where g: "getline (input_line_buffer s) f (env s) = (r, b, f', w')"
    by (cases "getline (input_line_buffer s) f (env s)") auto
  from getline_cases[OF g] ne have r: "r = int (length (next_line ?u))"
    and f': "f' = f\<lparr>s_pos := s_pos f + length (next_line ?u)\<rparr>"
    using g by (auto simp: getline_def Let_def)
  from g ne obtain rest where b: "b = Some (map Some (next_line ?u) @ Some NUL # rest)"
    by (auto simp: getline_def Let_def)
  have "unread w' f' = unread (env s) f'"
    using getline_files[OF g] by (auto simp: unread_def split: option.splits)
  then have u': "unread w' f' = drop (length (next_line ?u)) ?u"
    by (simp add: f' unread_advance)
  have "sint (word_of_int r :: 32 word) \<noteq> END_OF_INPUT"
    unfolding r END_OF_INPUT_def using assms(3) u by (intro sint32_not_minus1) simp
  with assms(1) g b u u' show ?thesis
    by (simp add: get_next_line_def remaining_def)
qed

lemma loop_body_line:
  assumes "input_line_buffer s = Some (map Some pre @ Some newline # Some NUL # rest)"
    and "newline \<notin> set pre" "NUL \<notin> set pre" "output_file s = Some g"
  shows "\<exists>s'. loop_body s = Inr s' \<and> printed s' = printed s @ rev pre @ [newline] \<and>
           remaining s' = remaining s \<and> output_file s' \<noteq> None"
proof -
  let ?s1 = "s\<lparr>input_line_buffer := Some (map Some (rev pre) @ Some newline # Some NUL # rest)\<rparr>"
  have r: "reverse_line s = Inr ?s1"
    using reverse_line_newline[OF assms(1,2)] .
  have "NUL \<notin> set (rev pre @ [newline])"
    using assms(3) by (simp add: NUL_def newline_def)
  then have "c_string (map Some (rev pre @ [newline]) @ Some NUL # rest) 0 = Inr (rev pre @ [newline])"
    by (rule c_string_append)
  then have "output_line ?s1 = Inr (?s1\<lparr>output_file := Some (fprintf_s g (rev pre @ [newline]))\<rparr>)"
    using assms(4) by (simp add: output_line_def)
  with r assms(4) show ?thesis
    by (auto simp: loop_body_def printed_def remaining_def fprintf_s_def split: option.splits)
qed

lemma process_lines_output:
  "output_file s = Some g \<Longrightarrow>
   \<forall>l \<in> set (input_lines (remaining s)). last l = newline \<and> NUL \<notin> set l \<and> length l < 4294967295 \<Longrightarrow>
   \<exists>s'. process_lines s = Inr s' \<and> remaining s' = [] \<and>
        printed s' = printed s @ concat (map spec_reverse (input_lines (remaining s)))"
proof (induction s arbitrary: g rule: process_lines.induct)
  case (1 s)
  show ?case
  proof (cases "remaining s = []")
    case True
    from get_next_line_end[OF True] obtain s1 where
      "get_next_line s = (END_OF_INPUT, s1)" "output_file s1 = output_file s" "remaining s1 = []"
      by blast
    with True show ?thesis
      by (subst process_lines.simps) (simp add: printed_def)
  next
    case False
    let ?l = "next_line (remaining s)"
    have lines: "input_lines (remaining s) = ?l # input_lines (drop (length ?l) (remaining s))"
      using False by (rule input_lines_Cons)
    from "1.prems"(2) lines have l: "last ?l = newline" "NUL \<notin> set ?l" "length ?l < 4294967295"
      and rest_ok: "\<forall>l \<in> set (input_lines (drop (length ?l) (remaining s))).
          last l = newline \<and> NUL \<notin> set l \<and> length l < 4294967295"
      by simp_all
    from False obtain f where f: "input_file s = Some f"
      by (auto simp: remaining_def split: option.splits)
    from get_next_line_reads[OF f False l(3)] obtain r s1 rest f' where
      g: "get_next_line s = (r, s1)" and r: "r \<noteq> END_OF_INPUT"
      and b: "input_line_buffer s1 = Some (map Some ?l @ Some NUL # rest)"
      and rem1: "remaining s1 = drop (length ?l) (remaining s)"
      and out1: "output_file s1 = output_file s"
      by blast
    have lne: "?l \<noteq> []" using False by simp
    let ?pre = "butlast ?l"
    have split: "?l = ?pre @ [newline]"
      using lne l(1) by (metis append_butlast_last_id)
    have pre: "newline \<notin> set ?pre" "NUL \<notin> set ?pre"
      using next_line_butlast l(2) by (auto dest: in_set_butlastD)
    have b': "input_line_buffer s1 = Some (map Some ?pre @ Some newline # Some NUL # rest)"
      using b by (subst (asm) split) simp
    from loop_body_line[OF b' pre] out1 "1.prems"(1) obtain s2 where
      body: "loop_body s1 = Inr s2" and p2: "printed s2 = printed s1 @ rev ?pre @ [newline]"
      and rem2: "remaining s2 = remaining s1" and out2: "output_file s2 \<noteq> None"
      by auto
    from out2 obtain g2 where g2: "output_file s2 = Some g2" by auto
    from "1.IH"[OF g[symmetric] r body g2] rest_ok rem1 rem2 obtain s' where
      s': "process_lines s2 = Inr s'" "remaining s' = []"
        "printed s' = printed s2 @ concat (map spec_reverse (input_lines (remaining s2)))"
      by auto
    have sr: "spec_reverse ?l = rev ?pre @ [newline]"
      using lne l(1) by (simp add: spec_reverse_def)
    have p1: "printed s1 = printed s" using out1 by (simp add: printed_def)
    have "process_lines s = process_lines s2"
      using g r body by (subst process_lines.simps) simp
    with s' p2 p1 rem1 rem2 lines sr show ?thesis by simp
  qed
qed

section \<open>The printed lines, and reversing twice\<close>

lemma input_lines_concat:
  "\<forall>l \<in> set ls. \<exists>pre. l = pre @ [newline] \<and> newline \<notin> set pre \<Longrightarrow> input_lines (concat ls) = ls"
proof (induction ls)
  case Nil
  show ?case by simp
next
  case (Cons l ls)
  then obtain pre where l: "l = pre @ [newline]" "newline \<notin> set pre" by auto
  have nl: "next_line (concat (l # ls)) = l"
    using next_line_append[OF l(2), of "concat ls"] by (simp add: l(1))
  have "input_lines (concat (l # ls)) = l # input_lines (drop (length l) (concat (l # ls)))"
    using input_lines_Cons[of "concat (l # ls)"] nl l(1) by simp
  with Cons show ?case by simp
qed

lemma input_lines_shape: "l \<in> set (input_lines cs) \<Longrightarrow> l \<noteq> [] \<and> newline \<notin> set (butlast l)"
proof (induction cs rule: input_lines.induct)
  case (1 cs)
  show ?case
  proof (cases "cs = []")
    case True with 1 show ?thesis by simp
  next
    case False
    let ?rest = "drop (length (next_line cs)) cs"
    have "input_lines cs = next_line cs # input_lines ?rest"
      using False by (rule input_lines_Cons)
    with "1.prems" consider "l = next_line cs" | "l \<in> set (input_lines ?rest)" by auto
    then show ?thesis
    proof cases
      case 1
      with False show ?thesis by (simp add: next_line_butlast)
    next
      case 2
      with "1.IH"[OF False] show ?thesis by simp
    qed
  qed
qed

lemma reversed_lines_are_lines:
  assumes "\<forall>l \<in> set (input_lines cs). last l = newline"
  shows "input_lines (concat (map spec_reverse (input_lines cs))) = map spec_reverse (input_lines cs)"
proof (rule input_lines_concat, rule ballI)
  fix l' assume "l' \<in> set (map spec_reverse (input_lines cs))"
  then obtain l where l: "l \<in> set (input_lines cs)" "l' = spec_reverse l" by auto
  from input_lines_shape[OF l(1)] assms l(1) have "l \<noteq> []" "newline \<notin> set (butlast l)" "last l = newline"
    by auto
  then have "l' = rev (butlast l) @ [newline] \<and> newline \<notin> set (rev (butlast l))"
    by (simp add: l(2) spec_reverse_def)
  then show "\<exists>pre. l' = pre @ [newline] \<and> newline \<notin> set pre" by blast
qed

lemma reverse_twice_newline:
  assumes "input_line_buffer s = Some (map Some pre @ Some newline # rest)" "newline \<notin> set pre"
  shows "reverse_twice s = Inr s"
proof -
  let ?s1 = "s\<lparr>input_line_buffer := Some (map Some (rev pre) @ Some newline # rest)\<rparr>"
  have 1: "reverse_line s = Inr ?s1" using reverse_line_newline[OF assms] .
  have "reverse_line ?s1 = Inr (?s1\<lparr>input_line_buffer := Some (map Some (rev (rev pre)) @ Some newline # rest)\<rparr>)"
    by (rule reverse_line_newline) (use assms(2) in simp_all)
  with 1 assms(1) show ?thesis by (simp add: reverse_twice_def)
qed

section \<open>Helpers for the examples and for the resources of a run\<close>

lemma remaining_example: "remaining (example_state bytes buf) = bytes"
  by (simp add: remaining_def example_state_def unread_def example_world_def)

lemma printed_example: "printed (example_state bytes buf) = []"
  by (simp add: printed_def example_state_def)

lemma lines_example:
  "input_lines (''hello'' @ [newline] @ ''world'' @ [newline]) = [''hello'' @ [newline], ''world'' @ [newline]]"
  by code_simp

lemma get_next_line_resources:
  assumes "get_next_line s = (r, s1)" "input_file s = Some f"
  shows "input_file s1 \<noteq> None \<and> output_file s1 = output_file s \<and> input_line_buffer s1 \<noteq> None \<and>
     live_streams (env s1) = live_streams (env s) \<and>
     live_blocks (env s1) =
       (if input_line_buffer s = None then Suc (live_blocks (env s)) else live_blocks (env s))"
  using assms
  by (auto simp: get_next_line_def getline_def Let_def split: option.splits if_splits)

lemma loop_body_resources:
  assumes "loop_body s = Inr s'"
  shows "input_file s' = input_file s \<and> env s' = env s \<and>
     (output_file s \<noteq> None \<longrightarrow> output_file s' \<noteq> None) \<and>
     (input_line_buffer s \<noteq> None \<longrightarrow> input_line_buffer s' \<noteq> None)"
  using assms
  by (auto simp: loop_body_def reverse_line_def output_line_def split: sum.splits option.splits)

lemma process_lines_resources:
  "process_lines s = Inr s' \<Longrightarrow> input_file s \<noteq> None \<Longrightarrow> output_file s \<noteq> None \<Longrightarrow>
   input_file s' \<noteq> None \<and> output_file s' \<noteq> None \<and> input_line_buffer s' \<noteq> None \<and>
   live_streams (env s') = live_streams (env s) \<and>
   live_blocks (env s') =
     (if input_line_buffer s = None then Suc (live_blocks (env s)) else live_blocks (env s))"
proof (induction s rule: process_lines.induct)
  case (1 s)
  obtain r s1 where g: "get_next_line s = (r, s1)" by (cases "get_next_line s") auto
  from "1.prems"(2) obtain f where f: "input_file s = Some f" by auto
  note res1 = get_next_line_resources[OF g f]
  show ?case
  proof (cases "r \<noteq> END_OF_INPUT")
    case False
    with g "1.prems"(1) have "s' = s1" by (subst (asm) process_lines.simps) simp
    with res1 "1.prems"(3) show ?thesis by simp
  next
    case True
    with g "1.prems"(1) obtain s2 where body: "loop_body s1 = Inr s2"
      and rest: "process_lines s2 = Inr s'"
      by (subst (asm) process_lines.simps) (auto split: sum.splits)
    note res2 = loop_body_resources[OF body]
    have "input_file s2 \<noteq> None" "output_file s2 \<noteq> None" "input_line_buffer s2 \<noteq> None"
      using res1 res2 "1.prems"(3) by auto
    with "1.IH"[OF g[symmetric] True body rest] res1 res2 show ?thesis by simp
  qed
qed

section \<open>Whole runs\<close>

text \<open>
  The loop leaves the streams on their files and changes nothing of the world but the
  number of live heap blocks. So a run on two different paths, with no device failing,
  ends with status 0 and leaves in the output file what the loop printed: the reversed
  lines of the input file.
\<close>

lemma get_next_line_streams:
  assumes "get_next_line s = (r, s1)" "input_file s = Some f"
  shows "(\<exists>f'. input_file s1 = Some f' \<and> s_path f' = s_path f \<and> s_pending f' = s_pending f) \<and>
     env s1 = (env s)\<lparr>live_blocks := live_blocks (env s1)\<rparr>"
  using assms
  by (auto simp: get_next_line_def getline_def Let_def split: option.splits if_splits)

lemma loop_body_streams:
  assumes "loop_body s = Inr s'" "output_file s = Some g"
  shows "\<exists>g'. output_file s' = Some g' \<and> s_path g' = s_path g"
  using assms
  by (auto simp: loop_body_def reverse_line_def output_line_def fprintf_s_def
      split: sum.splits option.splits)

lemma process_lines_streams:
  "process_lines s = Inr s' \<Longrightarrow> input_file s = Some f \<Longrightarrow> output_file s = Some g \<Longrightarrow>
   (\<exists>f'. input_file s' = Some f' \<and> s_path f' = s_path f \<and> s_pending f' = s_pending f) \<and>
   (\<exists>g'. output_file s' = Some g' \<and> s_path g' = s_path g) \<and>
   env s' = (env s)\<lparr>live_blocks := live_blocks (env s')\<rparr>"
proof (induction s arbitrary: f g rule: process_lines.induct)
  case (1 s)
  obtain r s1 where gn: "get_next_line s = (r, s1)" by (cases "get_next_line s") auto
  from get_next_line_streams[OF gn "1.prems"(2)] obtain f1 where
    f1: "input_file s1 = Some f1" "s_path f1 = s_path f" "s_pending f1 = s_pending f"
    and e1: "env s1 = (env s)\<lparr>live_blocks := live_blocks (env s1)\<rparr>" by blast
  have o1: "output_file s1 = Some g"
    using get_next_line_resources[OF gn "1.prems"(2)] "1.prems"(3) by simp
  show ?case
  proof (cases "r \<noteq> END_OF_INPUT")
    case False
    with gn "1.prems"(1) have "s' = s1" by (subst (asm) process_lines.simps) simp
    with f1 e1 o1 show ?thesis by simp
  next
    case True
    with gn "1.prems"(1) obtain s2 where body: "loop_body s1 = Inr s2"
      and rest: "process_lines s2 = Inr s'"
      by (subst (asm) process_lines.simps) (auto split: sum.splits)
    from loop_body_streams[OF body o1] obtain g2 where
      g2: "output_file s2 = Some g2" "s_path g2 = s_path g" by blast
    from loop_body_resources[OF body] f1 have f2: "input_file s2 = Some f1" and e2: "env s2 = env s1"
      by simp_all
    from "1.IH"[OF gn[symmetric] True body rest f2 g2(1)] obtain f' g' where
      "input_file s' = Some f'" "s_path f' = s_path f1" "s_pending f' = s_pending f1"
      "output_file s' = Some g'" "s_path g' = s_path g2"
      and e': "env s' = (env s2)\<lparr>live_blocks := live_blocks (env s')\<rparr>"
      by blast
    moreover have "env s' = (env s)\<lparr>live_blocks := live_blocks (env s')\<rparr>"
      by (subst e', subst e2, subst e1) simp
    ultimately show ?thesis using f1 g2 by simp
  qed
qed

lemma main_reverses_file:
  assumes "files w inp = Some bytes" "inp \<notin> no_read w" "out \<notin> no_write w" "inp \<noteq> out"
    and "rd_limit w = None" "wr_limit w = None"
    and "\<forall>l \<in> set (input_lines bytes).
           last l = newline \<and> NUL \<notin> set l \<and> length l < 4294967295"
  shows "main program [inp, out] w =
     Exit 0 (w\<lparr>files := (files w)(out \<mapsto> concat (map spec_reverse (input_lines bytes)))\<rparr>)"
proof -
  let ?f = "\<lparr>s_path = inp, s_pos = 0, s_pending = []\<rparr>"
  let ?g = "\<lparr>s_path = out, s_pos = 0, s_pending = []\<rparr>"
  let ?w2 = "w\<lparr>files := (files w)(out \<mapsto> []), live_streams := Suc (Suc (live_streams w))\<rparr>"
  let ?s2 = "\<lparr>input_file = Some ?f, output_file = Some ?g, input_line_buffer = None, env = ?w2\<rparr>"
  let ?out = "concat (map spec_reverse (input_lines bytes))"
  have m: "main program [inp, out] w =
      (case process_lines ?s2 of Inl e \<Rightarrow> Undefined e | Inr s3 \<Rightarrow> EXIT_SUCC s3)"
    using assms(1-3)
    by (auto simp: main_def open_file_def fopen_def store_def Let_def)
  have rem: "remaining ?s2 = bytes"
    using assms(1,4,5) by (simp add: remaining_def unread_def)
  have "\<forall>l \<in> set (input_lines (remaining ?s2)).
           last l = newline \<and> NUL \<notin> set l \<and> length l < 4294967295"
    unfolding rem by (rule assms(7))
  from process_lines_output[OF _ this, of ?g] obtain s3 where
    p: "process_lines ?s2 = Inr s3" and pr: "printed s3 = ?out"
    unfolding rem by (auto simp: printed_def)
  from process_lines_streams[OF p, of ?f ?g] obtain f' g' where
    f': "input_file s3 = Some f'" "s_pending f' = []"
    and g': "output_file s3 = Some g'" "s_path g' = out"
    and e: "env s3 = ?w2\<lparr>live_blocks := live_blocks (env s3)\<rparr>"
    by auto
  from process_lines_resources[OF p] have b: "input_line_buffer s3 \<noteq> None"
    and lb: "live_blocks (env s3) = Suc (live_blocks w)" by simp_all
  define printed_bytes where "printed_bytes = ?out"
  from pr g' have pend: "s_pending g' = printed_bytes"
    by (simp add: printed_def printed_bytes_def)
  have e3: "env s3 = w\<lparr>files := (files w)(out \<mapsto> []),
      live_streams := Suc (Suc (live_streams w)), live_blocks := Suc (live_blocks w)\<rparr>"
    by (subst e) (simp add: lb)
  have "EXIT_SUCC s3 = Exit 0 (w\<lparr>files := (files w)(out \<mapsto> printed_bytes)\<rparr>)"
    using f' g' b pend assms(6)
    by (auto simp: EXIT_SUCC_def cleanup_def fclose_def Let_def e3)
  with m p show ?thesis by (simp add: printed_bytes_def)
qed

lemma scenarios:
  "file_after (main ''reverse'' [''in'', ''out'']
      (example_world (''hello'' @ [newline] @ ''world'' @ [newline]))) ''out''
     = Some (''olleh'' @ [newline] @ ''dlrow'' @ [newline])"
  "file_after (main ''reverse'' [''in'', ''out'']
      (example_world (''a'' @ [newline, newline] @ ''bc'' @ [newline]))) ''out''
     = Some (''a'' @ [newline, newline] @ ''cb'' @ [newline])"
  "file_after (main ''reverse'' [''in'', ''out''] (example_world [])) ''out'' = Some []"
  "exit_status (main ''reverse'' [''in'', ''out''] (example_world [])) = Some 0"
  by code_simp+

section \<open>The claims\<close>

subsection \<open>The loop\<close>

text \<open>
  What the loop prints is cut at a NUL byte, since the line is printed as a C string: the
  input line \<open>a\<close>, NUL, \<open>b\<close>, newline comes out as the single byte \<open>b\<close>, not as the reversal
  of the line.
\<close>

theorem nul_byte_cuts_output:
  "map_sum id printed (process_lines (example_state [CHR ''a'', NUL, CHR ''b'', newline] None))
     = Inr ''b'' \<and>
   concat (map spec_reverse (input_lines [CHR ''a'', NUL, CHR ''b'', newline]))
     = [CHR ''b'', NUL, CHR ''a'', newline]"
  by code_simp

text \<open>
  Claim C1, as the code has it: for every input whose lines all end in a newline, hold no
  NUL byte and are shorter than 4294967295 bytes (the length is returned as a 32-bit
  \<^verbatim>\<open>int\<close>, and -1 ends the loop), the loop runs until the input is exhausted and prints
  exactly the reversals of the input's lines, one output line for each input line, in
  the same order. A last line without a newline is left out here (claim C3).
\<close>

theorem process_lines_reverses_each_line:
  assumes "output_file s = Some g"
    and "\<forall>l \<in> set (input_lines (remaining s)).
           last l = newline \<and> NUL \<notin> set l \<and> length l < 4294967295"
  shows "\<exists>s'. process_lines s = Inr s' \<and> remaining s' = [] \<and>
           printed s' = printed s @ concat (map spec_reverse (input_lines (remaining s))) \<and>
           input_lines (concat (map spec_reverse (input_lines (remaining s))))
             = map spec_reverse (input_lines (remaining s))"
proof -
  from assms(2) have "\<forall>l \<in> set (input_lines (remaining s)). last l = newline" by simp
  then have "input_lines (concat (map spec_reverse (input_lines (remaining s))))
             = map spec_reverse (input_lines (remaining s))"
    by (rule reversed_lines_are_lines)
  with process_lines_output[OF assms] show ?thesis by auto
qed

theorem process_lines_reverses_each_line_witness:
  "\<exists>s'. process_lines (example_state (''hello'' @ [newline] @ ''world'' @ [newline]) None) = Inr s' \<and>
        remaining s' = [] \<and>
        printed s' = ''olleh'' @ [newline] @ ''dlrow'' @ [newline] \<and>
        input_lines (''olleh'' @ [newline] @ ''dlrow'' @ [newline])
          = [''olleh'' @ [newline], ''dlrow'' @ [newline]]"
proof -
  let ?s = "example_state (''hello'' @ [newline] @ ''world'' @ [newline]) None"
  have lines: "input_lines (remaining ?s) = [''hello'' @ [newline], ''world'' @ [newline]]"
    by (simp only: remaining_example lines_example)
  have out: "output_file ?s = Some \<lparr>s_path = ''out'', s_pos = 0, s_pending = []\<rparr>"
    by (simp add: example_state_def)
  have ok: "\<forall>l \<in> set (input_lines (remaining ?s)).
           last l = newline \<and> NUL \<notin> set l \<and> length l < 4294967295"
    unfolding lines by (simp add: newline_def NUL_def)
  have rev: "map spec_reverse [''hello'' @ [newline], ''world'' @ [newline]]
      = [''olleh'' @ [newline], ''dlrow'' @ [newline]]"
    by (simp add: spec_reverse_def)
  show ?thesis
    using process_lines_reverses_each_line[OF out ok]
    unfolding lines rev printed_example by simp
qed

subsection \<open>Lines without a newline\<close>

text \<open>
  The scan of \<^verbatim>\<open>reverse_line\<close> looks for a newline only: it does not stop at the NUL that
  ends the line, and it does not know the length that \<^verbatim>\<open>getline\<close> returned. On a last
  line without a newline it runs past the line into whatever the buffer holds there.
  Where that is a line read earlier, the run goes on with the stale bytes: the file
  \<open>hello\<newline>ab\<close> comes out as \<open>olleh\<newline>he\<close>.
\<close>

lemma stale_bytes_example:
  "exit_status (main ''reverse'' [''in'', ''out''] (example_world (''hello'' @ [newline] @ ''ab'')))
     = Some 0 \<and>
   file_after (main ''reverse'' [''in'', ''out''] (example_world (''hello'' @ [newline] @ ''ab'')))
     ''out'' = Some (''olleh'' @ [newline] @ ''he'')"
  by code_simp

text \<open>
  Claim C2: for every line, reversing it twice gives the line back, the trailing newline
  (if there is one) staying in place. For a line with a newline this holds
  (\<open>reverse_twice_newline\<close>). For the line \<open>noeol\<close>, read into a fresh buffer, already the
  first reversal reads the uninitialised cell 6 of the buffer.
\<close>

theorem reverse_twice_noeol:
  "fault_in (reverse_twice (snd (get_next_line (example_state ''noeol'' None))))
     = Some (Uninitialised_read 6)"
  by code_simp

text \<open>
  Claim C3: a last line without a newline is reversed and written as it is; the input
  \<open>noeol\<close> gives the output \<open>loeon\<close>. The program, run on a file that holds \<open>noeol\<close>,
  reads the uninitialised cell 6 of its line buffer instead, and writes nothing that its
  input determines.
\<close>

theorem main_noeol:
  "fault_of (main ''reverse'' [''in'', ''out''] (example_world ''noeol''))
     = Some (Uninitialised_read 6)"
  by code_simp

text \<open>
  Claim C4: the scan for the line boundary stays within the bytes that were delivered
  for the line just read. For the line \<open>noeol\<close>, \<^verbatim>\<open>get_next_line\<close> delivers 5 bytes, and the
  scan goes on to the cell at index 6.
\<close>

theorem scan_noeol:
  "fst (get_next_line (example_state ''noeol'' None)) = 5 \<and>
   scanned (snd (get_next_line (example_state ''noeol'' None)))
     = Some (Inl (Uninitialised_read 6))"
  by code_simp

subsection \<open>Empty lines\<close>



subsection \<open>Printing a line\<close>

text \<open>
  \<^verbatim>\<open>output_line\<close> prints the buffer as a C string. Of the reversed line \<open>b\<close>, NUL, \<open>a\<close>,
  newline it prints the byte \<open>b\<close> and drops the rest.
\<close>

theorem output_line_stops_at_nul:
  "map_sum id printed
     (output_line (example_state []
        (Some (map Some [CHR ''b'', NUL, CHR ''a'', newline] @ [Some NUL]))))
     = Inr ''b''"
  by code_simp

text \<open>
  Claim C6, as the code has it: \<^verbatim>\<open>output_line\<close> appends to the output the bytes of the line
  up to its first NUL byte, unchanged and in order; for a line that holds no NUL byte
  that is the whole line as \<^verbatim>\<open>reverse_line\<close> left it, the newline included.
\<close>

theorem output_line_prints_line:
  "input_line_buffer s = Some (map Some l @ Some NUL # rest) \<Longrightarrow> output_file s = Some g \<Longrightarrow>
   output_line s =
     Inr (s\<lparr>output_file := Some (g\<lparr>s_pending := s_pending g @ takeWhile (\<lambda>c. c \<noteq> NUL) l\<rparr>)\<rparr>) \<and>
   (NUL \<notin> set l \<longrightarrow> takeWhile (\<lambda>c. c \<noteq> NUL) l = l)"
  by (auto simp: output_line_def c_string_takeWhile fprintf_s_def)

theorem output_line_prints_line_witness:
  "output_line (example_state [] (Some (map Some (''cba'' @ [newline]) @ [Some NUL, None]))) =
     Inr ((example_state [] (Some (map Some (''cba'' @ [newline]) @ [Some NUL, None])))
            \<lparr>output_file := Some \<lparr>s_path = ''out'', s_pos = 0, s_pending = ''cba'' @ [newline]\<rparr>\<rparr>)"
  using output_line_prints_line[of "example_state [] (Some (map Some (''cba'' @ [newline]) @ [Some NUL, None]))"
     "''cba'' @ [newline]" "[None]" "\<lparr>s_path = ''out'', s_pos = 0, s_pending = []\<rparr>"]
  by (simp add: example_state_def NUL_def newline_def)

subsection \<open>Lines with a newline\<close>

text \<open>
  Claim C10: for a line that contains a newline, \<^verbatim>\<open>reverse_line\<close> changes only the bytes
  before the first newline, which it reverses (a permutation of them); the newline and
  every cell after it, whatever it holds, stay as they are.
\<close>

theorem reverse_line_changes_only_before_newline:
  "input_line_buffer s = Some (map Some pre @ Some newline # rest) \<Longrightarrow>
   newline \<notin> set pre \<Longrightarrow>
   reverse_line s =
     Inr (s\<lparr>input_line_buffer := Some (map Some (rev pre) @ Some newline # rest)\<rparr>)"
  by (rule reverse_line_newline)

theorem reverse_line_changes_only_before_newline_witness:
  "reverse_line
     (example_state []
        (Some (map Some ''abc'' @ Some newline # [Some NUL, Some CHR ''z'', None]))) =
   Inr ((example_state []
           (Some (map Some ''abc'' @ Some newline # [Some NUL, Some CHR ''z'', None])))
          \<lparr>input_line_buffer :=
             Some (map Some ''cba'' @ Some newline # [Some NUL, Some CHR ''z'', None])\<rparr>)"
  using reverse_line_changes_only_before_newline
    [of "example_state []
           (Some (map Some ''abc'' @ Some newline # [Some NUL, Some CHR ''z'', None]))"
        "''abc''" "[Some NUL, Some CHR ''z'', None]"]
  by (simp add: example_state_def newline_def)

subsection \<open>Usage and open errors\<close>

text \<open>
  Claim C7: when the number of arguments after the program name is not two, the program
  prints the usage message to the error stream and exits with status 1; nothing else in
  the world changes: no file is opened, created or modified.
\<close>

theorem usage_error:
  "length args \<noteq> 2 \<Longrightarrow>
   main program args w =
     Exit 1 (w\<lparr>err_stream :=
               err_stream w @ ''Usage: '' @ program @ '' [in-file] [out-file]'' @ [newline]\<rparr>)"
  by (simp add: main_def EXIT_ERR_def cleanup_def print_usage_def print_err_def)

theorem usage_error_witness:
  "main ''reverse'' [''in''] (example_world ''abc'') =
     Exit 1 ((example_world ''abc'')
               \<lparr>err_stream := ''Usage: reverse [in-file] [out-file]'' @ [newline]\<rparr>) \<and>
   main ''reverse'' [''in'', ''out'', ''x'', ''y''] (example_world ''abc'') =
     Exit 1 ((example_world ''abc'')
               \<lparr>err_stream := ''Usage: reverse [in-file] [out-file]'' @ [newline]\<rparr>)"
  using usage_error[of "[''in'']" "''reverse''" "example_world ''abc''"]
    usage_error[of "[''in'', ''out'', ''x'', ''y'']" "''reverse''" "example_world ''abc''"]
  by (simp add: example_world_def)

text \<open>
  Claim C8: when the input path cannot be opened, the program prints an error message
  with that path and exits with status 1, and no output file is created; when the input
  opens and the output path cannot be opened, it prints the message with the output
  path, closes the input stream and exits with status 1. In both cases the files are
  as they were and no stream is left open.
\<close>

theorem open_failure:
  "(files w inp = None \<or> inp \<in> no_read w \<longrightarrow>
      main program [inp, out] w =
        Exit 1 (w\<lparr>err_stream := err_stream w @ ''Error opening file: '' @ inp @ [newline]\<rparr>)) \<and>
   (files w inp \<noteq> None \<and> inp \<notin> no_read w \<and> out \<in> no_write w \<longrightarrow>
      main program [inp, out] w =
        Exit 1 (w\<lparr>err_stream := err_stream w @ ''Error opening file: '' @ out @ [newline]\<rparr>))"
  by (auto simp: main_def open_file_def fopen_def store_def EXIT_ERR_def cleanup_def
      print_err_def fclose_def Let_def)

theorem open_failure_witness:
  "main ''reverse'' [''missing'', ''out''] (example_world ''abc'') =
     Exit 1 ((example_world ''abc'')
               \<lparr>err_stream := ''Error opening file: missing'' @ [newline]\<rparr>) \<and>
   main ''reverse'' [''in'', ''out''] ((example_world ''abc'')\<lparr>no_write := {''out''}\<rparr>) =
     Exit 1 ((example_world ''abc'')
               \<lparr>no_write := {''out''}, err_stream := ''Error opening file: out'' @ [newline]\<rparr>)"
  using open_failure[of "example_world ''abc''" "''missing''" "''reverse''" "''out''"]
    open_failure[of "(example_world ''abc'')\<lparr>no_write := {''out''}\<rparr>" "''in''" "''reverse''" "''out''"]
  by (simp add: example_world_def)

subsection \<open>Faults of the devices\<close>

text \<open>
  A run whose first read fails (the input device delivers no byte of the file's three)
  ends with status 0.
\<close>

theorem read_fault_exits_zero:
  "exit_status (main ''reverse'' [''in'', ''out'']
     ((example_world (''ab'' @ [newline]))\<lparr>rd_limit := Some 0\<rparr>)) = Some 0"
  by code_simp

text \<open>
  A read that fails in the middle of a line delivers a line without a newline, and the
  run ends in the fault of claim C3.
\<close>

lemma read_fault_mid_line_example:
  "fault_of (main ''reverse'' [''in'', ''out'']
     ((example_world (''ab'' @ [newline]))\<lparr>rd_limit := Some 1\<rparr>)) = Some (Uninitialised_read 2)"
  by code_simp

text \<open>
  Claim C9, as the code has it: a read failure ends the loop as the end of the input
  does, and a failure to write goes unnoticed; a run that has started its loop and
  comes to its exit, with or without such a failure, has released its streams and its
  buffer and exits with status 0.
\<close>

theorem io_fault_exit_status:
  assumes "files w inp \<noteq> None" "inp \<notin> no_read w" "out \<notin> no_write w"
    and "main program [inp, out] w = Exit n w'"
  shows "n = 0 \<and> live_streams w' = live_streams w \<and> live_blocks w' = live_blocks w"
proof -
  let ?s2 = "\<lparr>input_file = Some \<lparr>s_path = inp, s_pos = 0, s_pending = []\<rparr>,
             output_file = Some \<lparr>s_path = out, s_pos = 0, s_pending = []\<rparr>,
             input_line_buffer = None,
             env = w\<lparr>files := (files w)(out \<mapsto> []), live_streams := Suc (Suc (live_streams w))\<rparr>\<rparr>"
  have m: "main program [inp, out] w =
      (case process_lines ?s2 of Inl e \<Rightarrow> Undefined e | Inr s3 \<Rightarrow> EXIT_SUCC s3)"
    using assms(1-3)
    by (auto simp: main_def open_file_def fopen_def store_def Let_def)
  with assms(4) obtain s3 where p: "process_lines ?s2 = Inr s3" and e: "EXIT_SUCC s3 = Exit n w'"
    by (auto split: sum.splits)
  from process_lines_resources[OF p] have r: "input_file s3 \<noteq> None" "output_file s3 \<noteq> None"
    "input_line_buffer s3 \<noteq> None" "live_streams (env s3) = Suc (Suc (live_streams w))"
    "live_blocks (env s3) = Suc (live_blocks w)"
    by simp_all
  from e r show ?thesis
    by (auto simp: EXIT_SUCC_def cleanup_def fclose_def Let_def)
qed

theorem io_fault_exit_status_witness:
  "exit_status (main ''reverse'' [''in'', ''out'']
     ((example_world (''ab'' @ [newline]))\<lparr>wr_limit := Some 1\<rparr>)) = Some 0"
proof -
  let ?w = "(example_world (''ab'' @ [newline]))\<lparr>wr_limit := Some 1\<rparr>"
  have f: "files ?w ''in'' \<noteq> None" "''in'' \<notin> no_read ?w" "''out'' \<notin> no_write ?w"
    by (simp_all add: example_world_def)
  have nf: "fault_of (main ''reverse'' [''in'', ''out''] ?w) = None"
    by code_simp
  obtain n w' where m: "main ''reverse'' [''in'', ''out''] ?w = Exit n w'"
  proof (cases "main ''reverse'' [''in'', ''out''] ?w")
    case (Exit n w')
    then show ?thesis by (rule that)
  next
    case (Undefined e)
    with nf show ?thesis by (simp add: fault_of_def)
  qed
  from io_fault_exit_status[OF f m] m show ?thesis
    by (simp add: exit_status_def)
qed

end
